theory Spec2Isabelle
  imports Main "HOL-Library.Word"
begin

unbundle bit_operations_syntax

section \<open>Bytes, errors and Python's sequence operations\<close>

text \<open>
  The program is \<^verbatim>\<open>tools/convert_pngs_into_pdf.py\<close>. A Python \<^verbatim>\<open>bytes\<close> or
  \<^verbatim>\<open>bytearray\<close> holds values 0..255, so it is a list of 8-bit words; arithmetic on
  an element is Python's unbounded integer arithmetic and is done on \<open>uint\<close> of it.
\<close>

type_synonym byte = "8 word"
type_synonym bytes = "byte list"

text \<open>
  Every way the program stops: the \<^verbatim>\<open>SystemExit\<close> messages it raises itself, and the
  exceptions of the Python runtime and of the libraries that it does not catch.
\<close>

datatype error =
    NotPng
  | NoImageData
  | UnsupportedBitDepth nat
  | InterlacedNotSupported
  | UnsupportedColorType nat
  | MissingPLTE
  | UnsupportedCompressionParams
  | MalformedPLTE
  | InvalidPaletteSize nat
  | PaletteIndexOutOfRange nat
  | UnsupportedFilterType nat
  | StructError
  | IndexError
  | ValueError
  | AssertionError
  | ZlibError

text \<open>The error kinds of the specification, and the kind of each way of stopping.\<close>

datatype error_kind =
    SignatureError
  | UnsupportedFormatError
  | MissingDataError
  | MalformedChunkError
  | PaletteIndexOutOfRangeError
  | FilterTypeError
  | Unclassified

fun kind_of :: "error \<Rightarrow> error_kind" where
  "kind_of NotPng = SignatureError"
| "kind_of NoImageData = MissingDataError"
| "kind_of (UnsupportedBitDepth _) = UnsupportedFormatError"
| "kind_of InterlacedNotSupported = UnsupportedFormatError"
| "kind_of (UnsupportedColorType _) = UnsupportedFormatError"
| "kind_of MissingPLTE = MissingDataError"
| "kind_of UnsupportedCompressionParams = UnsupportedFormatError"
| "kind_of MalformedPLTE = MalformedChunkError"
| "kind_of (InvalidPaletteSize _) = MalformedChunkError"
| "kind_of (PaletteIndexOutOfRange _) = PaletteIndexOutOfRangeError"
| "kind_of (UnsupportedFilterType _) = FilterTypeError"
| "kind_of StructError = Unclassified"
| "kind_of IndexError = Unclassified"
| "kind_of ValueError = Unclassified"
| "kind_of AssertionError = Unclassified"
| "kind_of ZlibError = Unclassified"

text \<open>Sequencing of steps that may raise.\<close>

definition and_then :: "error + 'a \<Rightarrow> ('a \<Rightarrow> error + 'b) \<Rightarrow> error + 'b" where
  "and_then r f = (case r of Inl e \<Rightarrow> Inl e | Inr x \<Rightarrow> f x)"

text \<open>\<^verbatim>\<open>for i in items: s = f(i, s)\<close>, where the body may raise.\<close>

fun for_loop :: "'i list \<Rightarrow> ('i \<Rightarrow> 's \<Rightarrow> error + 's) \<Rightarrow> 's \<Rightarrow> error + 's" where
  "for_loop [] f s = Inr s"
| "for_loop (i # rest) f s = (case f i s of Inl e \<Rightarrow> Inl e | Inr s' \<Rightarrow> for_loop rest f s')"

text \<open>\<^verbatim>\<open>xs[i]\<close> for \<open>i \<ge> 0\<close>: IndexError out of range.\<close>

definition get_item :: "'a list \<Rightarrow> nat \<Rightarrow> error + 'a" where
  "get_item xs i = (if i < length xs then Inr (xs ! i) else Inl IndexError)"

text \<open>\<^verbatim>\<open>xs[a:b]\<close> for \<open>0 \<le> a \<le> b\<close>: clipped to the sequence, never an error.\<close>

definition slice :: "'a list \<Rightarrow> nat \<Rightarrow> nat \<Rightarrow> 'a list" where
  "slice xs a b = take (b - a) (drop a xs)"

text \<open>
  \<^verbatim>\<open>xs[a:b] = ys\<close> on a bytearray, for \<open>0 \<le> a \<le> b\<close>: the clipped slice is replaced
  by \<open>ys\<close>, whatever the length of \<open>ys\<close>, so the bytearray may shrink or grow.
\<close>

definition set_slice :: "'a list \<Rightarrow> nat \<Rightarrow> nat \<Rightarrow> 'a list \<Rightarrow> 'a list" where
  "set_slice xs a b ys = take a xs @ ys @ drop b xs"

text \<open>
  \<^verbatim>\<open>xs[i] = v\<close> on a bytearray, for \<open>i \<ge> 0\<close>: ValueError when \<open>v\<close> is not in
  \<open>range(256)\<close>, IndexError when \<open>i\<close> is out of range.
\<close>

definition set_byte :: "bytes \<Rightarrow> nat \<Rightarrow> int \<Rightarrow> error + bytes" where
  "set_byte xs i v =
     (if v < 0 \<or> 255 < v then Inl ValueError
      else if length xs \<le> i then Inl IndexError
      else Inr (xs[i := word_of_int v]))"

text \<open>\<^verbatim>\<open>xs[i] = v\<close> on a list, for \<open>i \<ge> 0\<close>: IndexError when \<open>i\<close> is out of range.\<close>

definition set_item :: "'a list \<Rightarrow> nat \<Rightarrow> 'a \<Rightarrow> error + 'a list" where
  "set_item xs i v = (if i < length xs then Inr (xs[i := v]) else Inl IndexError)"

text \<open>\<^verbatim>\<open>str.encode()\<close> of an ASCII string, and \<^verbatim>\<open>enumerate(xs, start)\<close>.\<close>

definition encode :: "string \<Rightarrow> bytes" where
  "encode s = map of_char s"

section \<open>The Paeth predictor and the blend over white\<close>

text \<open>\<^verbatim>\<open>paeth_predictor(a, b, c)\<close>, on Python integers.\<close>

definition paeth_predictor :: "int \<Rightarrow> int \<Rightarrow> int \<Rightarrow> int" where
  "paeth_predictor a b c =
     (let p = a + b - c;
          pa = \<bar>p - a\<bar>;
          pb = \<bar>p - b\<bar>;
          pc = \<bar>p - c\<bar>
      in if pa \<le> pb \<and> pa \<le> pc then a
         else if pb \<le> pc then b
         else c)"

text \<open>
  The specification's words: the candidate among (left, up, upLeft), in this order, that
  is the first to reach the least distance to \<open>left + up - upLeft\<close>.
\<close>

definition paeth_distance :: "int \<Rightarrow> int \<Rightarrow> int \<Rightarrow> int \<Rightarrow> int" where
  "paeth_distance left up upLeft candidate = \<bar>left + up - upLeft - candidate\<bar>"

definition paeth_spec :: "int \<Rightarrow> int \<Rightarrow> int \<Rightarrow> int" where
  "paeth_spec left up upLeft =
     (let d = paeth_distance left up upLeft;
          least = min (d left) (min (d up) (d upLeft))
      in if d left = least then left
         else if d up = least then up
         else upLeft)"

text \<open>
  The expression written three times in each of the two blending branches of
  \<^verbatim>\<open>to_rgb\<close>: \<^verbatim>\<open>(c * a + 255 * (255 - a) + 127) // 255\<close>.
\<close>

definition blend :: "int \<Rightarrow> int \<Rightarrow> int" where
  "blend c a = (c * a + 255 * (255 - a) + 127) div 255"

text \<open>
  The body shared by the TruecolorAlpha and the Indexed branch of \<^verbatim>\<open>to_rgb\<close>: the
  pixel \<open>(r, g, b)\<close> with alpha \<open>a\<close> is written at \<open>out_offset\<close>.
\<close>

definition write_pixel :: "bytes \<Rightarrow> nat \<Rightarrow> byte \<Rightarrow> byte \<Rightarrow> byte \<Rightarrow> byte \<Rightarrow> error + bytes" where
  "write_pixel result out_offset r g b a =
     (if a = 255 then Inr (set_slice result out_offset (out_offset + 3) [r, g, b])
      else if a = 0 then Inr (set_slice result out_offset (out_offset + 3) [255, 255, 255])
      else
        and_then (set_byte result out_offset (blend (uint r) (uint a))) (\<lambda>result.
        and_then (set_byte result (out_offset + 1) (blend (uint g) (uint a))) (\<lambda>result.
        set_byte result (out_offset + 2) (blend (uint b) (uint a)))))"

text \<open>
  The alpha table of the Indexed mode: \<^verbatim>\<open>[255] * len(palette)\<close>, then, for a transparency
  payload that is not empty, the loop over \<^verbatim>\<open>enumerate(self._transparency)\<close> that stores
  each value where the guard \<^verbatim>\<open>idx < len(alpha_table)\<close> holds. The store is Python's: it
  raises IndexError out of range.
\<close>

definition build_alpha_table :: "'p list \<Rightarrow> bytes option \<Rightarrow> error + bytes" where
  "build_alpha_table pal tr =
     (let alpha_table = replicate (length pal) 255
      in case tr of
           None \<Rightarrow> Inr alpha_table
         | Some t \<Rightarrow>
             if t = [] then Inr alpha_table
             else for_loop (enumerate 0 t)
                    (\<lambda>(idx, v) alpha_table.
                       if idx < length alpha_table then set_item alpha_table idx v
                       else Inr alpha_table)
                    alpha_table)"

section \<open>The image object\<close>

text \<open>
  The fields of \<^verbatim>\<open>PngImage\<close> (without the path, which only appears in messages). The
  header fields are the unsigned integers that \<^verbatim>\<open>struct.unpack\<close> returns.
\<close>

record PngImage =
  width :: nat
  height :: nat
  bit_depth :: nat
  color_type :: nat
  compression :: nat
  filter_method :: nat
  interlace :: nat
  idat_chunks :: "bytes list"
  palette :: "(byte \<times> byte \<times> byte) list option"
  transparency :: "bytes option"

text \<open>The object after \<^verbatim>\<open>__init__\<close>.\<close>

definition init_image :: PngImage where
  "init_image =
     \<lparr>width = 0, height = 0, bit_depth = 0, color_type = 0, compression = 0,
      filter_method = 0, interlace = 0, idat_chunks = [], palette = None,
      transparency = None\<rparr>"

section \<open>Reversing the scanline filters\<close>

text \<open>
  \<^verbatim>\<open>apply_filter\<close> changes \<^verbatim>\<open>row\<close> in place and the caller goes on with the changed
  row, so the model returns it. Each loop runs over \<^verbatim>\<open>range(len(row))\<close> and keeps the
  length of the row, so \<^verbatim>\<open>row[i]\<close> and \<^verbatim>\<open>row[i - bpp]\<close> (read only when
  \<open>i \<ge> bpp\<close>) are in range; \<^verbatim>\<open>prev_row[i]\<close> raises IndexError when the previous row is
  shorter.
\<close>

definition left_of :: "bytes \<Rightarrow> nat \<Rightarrow> nat \<Rightarrow> int" where
  "left_of row i bpp = (if bpp \<le> i then uint (row ! (i - bpp)) else 0)"

definition add_byte :: "bytes \<Rightarrow> nat \<Rightarrow> int \<Rightarrow> bytes" where
  "add_byte row i v = row[i := word_of_int ((uint (row ! i) + v) AND 255)]"

definition apply_filter :: "nat \<Rightarrow> bytes \<Rightarrow> bytes \<Rightarrow> nat \<Rightarrow> error + bytes" where
  "apply_filter filter_type row prev_row channels =
     (let bpp = channels
      in if filter_type = 0 then Inr row
         else if filter_type = 1 then
           for_loop [0..<length row]
             (\<lambda>i row. Inr (add_byte row i (left_of row i bpp))) row
         else if filter_type = 2 then
           for_loop [0..<length row]
             (\<lambda>i row. and_then (get_item prev_row i) (\<lambda>up.
                Inr (add_byte row i (uint up)))) row
         else if filter_type = 3 then
           for_loop [0..<length row]
             (\<lambda>i row.
                let left = left_of row i bpp
                in and_then (get_item prev_row i) (\<lambda>up.
                     Inr (add_byte row i ((left + uint up) div 2)))) row
         else if filter_type = 4 then
           for_loop [0..<length row]
             (\<lambda>i row.
                let left = left_of row i bpp
                in and_then (get_item prev_row i) (\<lambda>up.
                     let up_left = left_of prev_row i bpp
                     in Inr (add_byte row i (paeth_predictor left (uint up) up_left)))) row
         else Inl (UnsupportedFilterType filter_type))"

section \<open>Compositing the pixels\<close>

definition channels_of :: "PngImage \<Rightarrow> nat" where
  "channels_of img = (if color_type img = 3 then 1 else if color_type img = 2 then 3 else 4)"

text \<open>The branch \<^verbatim>\<open>channels == 4\<close>: one pixel of four bytes at a time.\<close>

definition composite_alpha_row :: "nat \<Rightarrow> bytes \<Rightarrow> bytes \<times> nat \<Rightarrow> error + bytes \<times> nat" where
  "composite_alpha_row w row_data st =
     for_loop [0..<w]
       (\<lambda>px (result, out_offset).
          case slice row_data (px * 4) (px * 4 + 4) of
            [r, g, b, a] \<Rightarrow>
              and_then (write_pixel result out_offset r g b a) (\<lambda>result.
                Inr (result, out_offset + 3))
          | _ \<Rightarrow> Inl ValueError) st"

text \<open>
  The indexed branch: the palette entry and the alpha of the pixel's index. The lookup in
  the palette turns an IndexError into the exit \<^verbatim>\<open>palette index ... out of range\<close>.
\<close>

definition composite_indexed_row ::
    "nat \<Rightarrow> (byte \<times> byte \<times> byte) list \<Rightarrow> bytes \<Rightarrow> bytes \<Rightarrow> bytes \<times> nat \<Rightarrow> error + bytes \<times> nat" where
  "composite_indexed_row w pal alpha_table row_data st =
     for_loop [0..<w]
       (\<lambda>px (result, out_offset).
          and_then (get_item row_data px) (\<lambda>index.
            if unat index < length pal then
              (case pal ! unat index of (r, g, b) \<Rightarrow>
                 and_then (get_item alpha_table (unat index)) (\<lambda>a.
                 and_then (write_pixel result out_offset r g b a) (\<lambda>result.
                   Inr (result, out_offset + 3))))
            else Inl (PaletteIndexOutOfRange (unat index)))) st"

text \<open>
  The body of the loop over the rows. The state is
  \<open>(result, prev_row, offset, out_offset)\<close>; \<open>tab\<close> is the alpha table, \<open>None\<close> outside
  the indexed mode.
\<close>

definition decode_row ::
    "PngImage \<Rightarrow> bytes \<Rightarrow> bytes option \<Rightarrow> nat \<Rightarrow> bytes \<times> bytes \<times> nat \<times> nat
       \<Rightarrow> error + bytes \<times> bytes \<times> nat \<times> nat" where
  "decode_row img decompressed tab row_no st =
     (case st of (result, prev_row, offset, out_offset) \<Rightarrow>
        let channels = channels_of img;
            row_bytes = width img * channels
        in and_then (get_item decompressed offset) (\<lambda>filter_type.
             let offset = offset + 1;
                 row_data = slice decompressed offset (offset + row_bytes);
                 offset = offset + row_bytes
             in and_then (apply_filter (unat filter_type) row_data prev_row channels) (\<lambda>row_data.
                  and_then
                    (if channels = 3 then
                       Inr (set_slice result out_offset (out_offset + row_bytes) row_data,
                            out_offset + row_bytes)
                     else if channels = 4 then
                       composite_alpha_row (width img) row_data (result, out_offset)
                     else
                       (case (palette img, tab) of
                          (Some pal, Some alpha_table) \<Rightarrow>
                            composite_indexed_row (width img) pal alpha_table row_data
                              (result, out_offset)
                        | _ \<Rightarrow> Inl AssertionError))
                    (\<lambda>(result, out_offset). Inr (result, row_data, offset, out_offset)))))"

text \<open>The loop over the rows, from the zeroed buffer: the buffer after the last row.\<close>

definition composite_rows :: "PngImage \<Rightarrow> bytes \<Rightarrow> error + bytes" where
  "composite_rows img decompressed =
     (let channels = channels_of img;
          row_bytes = width img * channels;
          result = replicate (width img * height img * 3) 0;
          prev_row = replicate row_bytes 0
      in and_then
           (if channels = 1 then
              (case palette img of
                 None \<Rightarrow> Inl AssertionError
               | Some pal \<Rightarrow>
                   and_then (build_alpha_table pal (transparency img)) (\<lambda>alpha_table.
                     Inr (Some alpha_table)))
            else Inr None) (\<lambda>tab.
         and_then
           (for_loop [0..<height img] (decode_row img decompressed tab)
              (result, prev_row, 0, 0)) (\<lambda>(result, prev_row, offset, out_offset).
         Inr result)))"

text \<open>
  The pass after the rows, for \<^verbatim>\<open>channels == 3\<close> and a transparency payload that is not
  empty: \<open>key\<close> is \<^verbatim>\<open>tuple(self._transparency[:3])\<close>.
\<close>

definition key_pass :: "bytes \<Rightarrow> nat \<Rightarrow> bytes \<Rightarrow> bytes" where
  "key_pass key n result =
     fold (\<lambda>px result.
             let base = px * 3
             in if slice result base (base + 3) = key
                then set_slice result base (base + 3) [255, 255, 255]
                else result)
       [0..<n] result"

text \<open>\<^verbatim>\<open>to_rgb\<close> after the first line, on the decompressed data.\<close>

definition to_rgb_from :: "PngImage \<Rightarrow> bytes \<Rightarrow> error + bytes" where
  "to_rgb_from img decompressed =
     and_then (composite_rows img decompressed) (\<lambda>result.
       case transparency img of
         Some t \<Rightarrow>
           if channels_of img = 3 \<and> t \<noteq> []
           then Inr (key_pass (take 3 t) (width img * height img) result)
           else Inr result
       | None \<Rightarrow> Inr result)"

text \<open>
  \<^verbatim>\<open>to_rgb\<close>. \<^verbatim>\<open>zlib.decompress\<close> is a parameter: \<open>None\<close> when it raises
  \<^verbatim>\<open>zlib.error\<close>.
\<close>

definition to_rgb :: "(bytes \<Rightarrow> bytes option) \<Rightarrow> PngImage \<Rightarrow> error + bytes" where
  "to_rgb zlib_decompress img =
     (case zlib_decompress (concat (idat_chunks img)) of
        None \<Rightarrow> Inl ZlibError
      | Some decompressed \<Rightarrow> to_rgb_from img decompressed)"

section \<open>The specification's pixel rules\<close>

text \<open>
  The specification's rule for a pixel \<open>(r, g, b)\<close> with alpha \<open>a\<close>, written out: the pixel
  itself when \<open>a = 255\<close>, white when \<open>a = 0\<close>, and otherwise each channel \<open>c\<close> becomes
  \<open>(c * a + 255 * (255 - a) + 127) div 255\<close>. Then the pixel number \<open>px\<close> of a row of
  four-byte pixels under this rule.
\<close>

definition over_white :: "byte \<Rightarrow> byte \<Rightarrow> byte \<Rightarrow> byte \<Rightarrow> bytes" where
  "over_white r g b a =
     (if a = 255 then [r, g, b]
      else if a = 0 then [255, 255, 255]
      else [word_of_int ((uint r * uint a + 255 * (255 - uint a) + 127) div 255),
            word_of_int ((uint g * uint a + 255 * (255 - uint a) + 127) div 255),
            word_of_int ((uint b * uint a + 255 * (255 - uint a) + 127) div 255)])"

definition pixel4 :: "bytes \<Rightarrow> nat \<Rightarrow> bytes" where
  "pixel4 row px = over_white (row ! (4 * px)) (row ! (4 * px + 1)) (row ! (4 * px + 2)) (row ! (4 * px + 3))"

section \<open>Parsing the container\<close>

text \<open>The signature, and a big-endian unsigned integer as \<^verbatim>\<open>struct.unpack\<close> reads it.\<close>

definition PNG_SIGNATURE :: bytes where
  "PNG_SIGNATURE = [137, 80, 78, 71, 13, 10, 26, 10]"

definition be_uint :: "bytes \<Rightarrow> nat" where
  "be_uint bs = foldl (\<lambda>acc b. acc * 256 + unat b) 0 bs"

text \<open>
  \<^verbatim>\<open>_parse_ihdr\<close>: \<^verbatim>\<open>struct.unpack(">IIBBBBB", data)\<close> raises \<^verbatim>\<open>struct.error\<close> unless
  \<open>data\<close> has exactly 13 bytes, before any field is assigned; otherwise the seven fields
  are assigned and then the compression parameters are checked. The methods change the
  object in place, so each returns the object as it is when the method returns or raises:
  \<open>None\<close> for a normal return, \<open>Some e\<close> for the exception.
\<close>

definition parse_ihdr :: "PngImage \<Rightarrow> bytes \<Rightarrow> error option \<times> PngImage" where
  "parse_ihdr img data =
     (if length data \<noteq> 13 then (Some StructError, img)
      else
        let img = img\<lparr>width := be_uint (slice data 0 4),
                      height := be_uint (slice data 4 8),
                      bit_depth := unat (data ! 8),
                      color_type := unat (data ! 9),
                      compression := unat (data ! 10),
                      filter_method := unat (data ! 11),
                      interlace := unat (data ! 12)\<rparr>
        in if compression img \<noteq> 0 \<or> filter_method img \<noteq> 0
           then (Some UnsupportedCompressionParams, img)
           else (None, img))"

text \<open>
  \<^verbatim>\<open>_parse_palette\<close>: the length of the payload is a multiple of 3 when the list
  is built, so every \<^verbatim>\<open>data[i : i + 3]\<close> is a full triple.
\<close>

definition parse_palette :: "PngImage \<Rightarrow> bytes \<Rightarrow> error option \<times> PngImage" where
  "parse_palette img data =
     (if length data mod 3 \<noteq> 0 then (Some MalformedPLTE, img)
      else
        let entries = length data div 3
        in if entries = 0 \<or> 256 < entries then (Some (InvalidPaletteSize entries), img)
           else (None, img\<lparr>palette :=
                   Some (map (\<lambda>k. (data ! (3 * k), data ! (3 * k + 1), data ! (3 * k + 2)))
                           [0..<entries])\<rparr>))"

text \<open>
  The \<^verbatim>\<open>while True\<close> loop of \<^verbatim>\<open>load\<close> on the bytes that the stream still holds.
  \<^verbatim>\<open>stream.read(n)\<close> returns the next \<open>n\<close> bytes, or fewer at the end of the file;
  \<^verbatim>\<open>struct.unpack(">I", length_bytes)\<close> raises \<^verbatim>\<open>struct.error\<close> on 1 to 3 bytes.
  Each round that goes on has read 4 bytes at least, so the loop ends.
\<close>

function load_chunks :: "PngImage \<Rightarrow> bytes \<Rightarrow> error option \<times> PngImage" where
  "load_chunks img stream =
     (let length_bytes = take 4 stream
      in if length length_bytes = 0 then (None, img)
         else if length length_bytes \<noteq> 4 then (Some StructError, img)
         else
           let len = be_uint length_bytes;
               chunk_type = take 4 (drop 4 stream);
               data = take len (drop 8 stream);
               rest = drop 4 (drop len (drop 8 stream))
           in if chunk_type = encode ''IHDR'' then
                (case parse_ihdr img data of
                   (Some e, img) \<Rightarrow> (Some e, img)
                 | (None, img) \<Rightarrow> load_chunks img rest)
              else if chunk_type = encode ''IDAT'' then
                load_chunks (img\<lparr>idat_chunks := idat_chunks img @ [data]\<rparr>) rest
              else if chunk_type = encode ''PLTE'' then
                (case parse_palette img data of
                   (Some e, img) \<Rightarrow> (Some e, img)
                 | (None, img) \<Rightarrow> load_chunks img rest)
              else if chunk_type = encode ''tRNS'' then
                load_chunks (img\<lparr>transparency := Some data\<rparr>) rest
              else if chunk_type = encode ''IEND'' then (None, img)
              else load_chunks img rest)"
  by pat_completeness auto
termination
  by (relation "measure (\<lambda>(img, stream). length stream)") auto

text \<open>\<^verbatim>\<open>load\<close>, on the object and the bytes of the file.\<close>

definition load :: "PngImage \<Rightarrow> bytes \<Rightarrow> error option \<times> PngImage" where
  "load img file =
     (if take 8 file \<noteq> PNG_SIGNATURE then (Some NotPng, img)
      else
        case load_chunks img (drop 8 file) of
          (Some e, img) \<Rightarrow> (Some e, img)
        | (None, img) \<Rightarrow>
            (if idat_chunks img = [] then Some NoImageData
             else if bit_depth img \<noteq> 8 then Some (UnsupportedBitDepth (bit_depth img))
             else if interlace img \<noteq> 0 then Some InterlacedNotSupported
             else if color_type img \<notin> {2, 3, 6} then Some (UnsupportedColorType (color_type img))
             else if color_type img = 3 \<and> (palette img = None \<or> palette img = Some [])
               then Some MissingPLTE
             else None, img))"

section \<open>Pixels of a buffer and example images\<close>

text \<open>Pixel number \<open>j\<close> of an RGB buffer: the three bytes at \<open>3 * j\<close>.\<close>

definition pixel3 :: "bytes \<Rightarrow> nat \<Rightarrow> bytes" where
  "pixel3 buf j = slice buf (3 * j) (3 * j + 3)"

text \<open>The body of the loop of \<open>key_pass\<close>, named for the proofs.\<close>

definition key_step :: "bytes \<Rightarrow> nat \<Rightarrow> bytes \<Rightarrow> bytes" where
  "key_step key px result =
     (let base = px * 3
      in if slice result base (base + 3) = key
         then set_slice result base (base + 3) [255, 255, 255]
         else result)"

text \<open>A 2x1 Truecolor image whose transparency payload names the colour (1, 2, 3).\<close>

definition keyed_image :: PngImage where
  "keyed_image = init_image\<lparr>width := 2, height := 1, bit_depth := 8, color_type := 2,
      transparency := Some [1, 2, 3, 0, 0, 0]\<rparr>"

section \<open>Building the document\<close>

text \<open>
  Python's decimal rendering of an integer (\<^verbatim>\<open>str\<close>, \<^verbatim>\<open>format\<close> and f-strings), and the
  format \<^verbatim>\<open>{pos:010}\<close>: zero-padded to ten characters at least.
\<close>

definition digit_char :: "nat \<Rightarrow> char" where
  "digit_char d = char_of (48 + d)"

function str_nat :: "nat \<Rightarrow> string" where
  "str_nat n = (if n < 10 then [digit_char n] else str_nat (n div 10) @ [digit_char (n mod 10)])"
  by pat_completeness auto
termination
  by (relation "measure id") auto

definition str_int :: "int \<Rightarrow> string" where
  "str_int i = (if i < 0 then CHR ''-'' # str_nat (nat (- i)) else str_nat (nat i))"

definition pad10 :: "nat \<Rightarrow> string" where
  "pad10 n = replicate (10 - length (str_nat n)) CHR ''0'' @ str_nat n"

text \<open>
  The five object bodies that \<^verbatim>\<open>make_pdf\<close> collects with \<^verbatim>\<open>add_object\<close>.
  \<^verbatim>\<open>zlib.compress\<close> is a parameter.
\<close>

definition pdf_objects :: "(bytes \<Rightarrow> bytes) \<Rightarrow> bytes \<Rightarrow> int \<Rightarrow> int \<Rightarrow> bytes list" where
  "pdf_objects zlib_compress rgb w h =
     (let image_stream = zlib_compress rgb;
          contents_stream =
            encode (''q '' @ str_int w @ '' 0 0 '' @ str_int h @ '' 0 0 cm /Im0 Do Q'')
      in [encode ''<< /Type /Catalog /Pages 2 0 R >>'',
          encode ''<< /Type /Pages /Kids [3 0 R] /Count 1 >>'',
          encode (''<< /Type /Page /Parent 2 0 R /Resources << /XObject << /Im0 4 0 R >> /ProcSet [/PDF /ImageC] >> /MediaBox [0 0 ''
                  @ str_int w @ '' '' @ str_int h @ ''] /Contents 5 0 R >>''),
          encode (''<< /Type /XObject /Subtype /Image /Width '' @ str_int w @ '' /Height ''
                  @ str_int h
                  @ '' /ColorSpace /DeviceRGB /BitsPerComponent 8 /Filter /FlateDecode /Length ''
                  @ str_nat (length image_stream) @ '' >>\<newline>stream\<newline>'')
            @ image_stream @ encode ''\<newline>endstream'',
          encode (''<< /Length '' @ str_nat (length contents_stream) @ '' >>\<newline>stream\<newline>'')
            @ contents_stream @ encode ''\<newline>endstream''])"

text \<open>The header, and the body of the loop that writes the objects and records the offsets.\<close>

definition pdf_header :: bytes where
  "pdf_header = encode ''%PDF-1.4\<newline>%'' @ [255, 255, 255, 255] @ encode ''\<newline>''"

definition write_object :: "nat \<times> bytes \<Rightarrow> nat list \<times> bytes \<Rightarrow> nat list \<times> bytes" where
  "write_object item st =
     (case (item, st) of ((obj_number, body), (xref_positions, output)) \<Rightarrow>
        (xref_positions @ [length output],
         output @ encode (str_nat obj_number @ '' 0 obj\<newline>'') @ body
           @ encode ''\<newline>endobj\<newline>''))"

text \<open>\<^verbatim>\<open>make_pdf\<close>.\<close>

definition make_pdf :: "(bytes \<Rightarrow> bytes) \<Rightarrow> bytes \<Rightarrow> int \<Rightarrow> int \<Rightarrow> bytes" where
  "make_pdf zlib_compress rgb w h =
     (let objects = pdf_objects zlib_compress rgb w h;
          (xref_positions, output) = fold write_object (enumerate 1 objects) ([], pdf_header);
          xref_start = length output;
          output = output @ encode (''xref\<newline>0 '' @ str_nat (length objects + 1) @ ''\<newline>'');
          output = output @ encode ''0000000000 65535 f \<newline>'';
          output = fold (\<lambda>pos output. output @ encode (pad10 pos @ '' 00000 n \<newline>''))
                     xref_positions output;
          output = output @ encode ''trailer\<newline>'';
          output = output @ encode (''<< /Size '' @ str_nat (length objects + 1)
                     @ '' /Root 1 0 R >>\<newline>startxref\<newline>'' @ str_nat xref_start
                     @ ''\<newline>%%EOF'')
      in output)"


text \<open>Reading a decimal number back, as a consumer of the cross-reference table does.\<close>

definition dec_value :: "string \<Rightarrow> nat" where
  "dec_value s = foldl (\<lambda>acc c. 10 * acc + (of_char c - 48)) 0 s"

text \<open>
  The state of \<^verbatim>\<open>make_pdf\<close> after the loop over the objects: the recorded offsets and
  the output so far.
\<close>

definition pdf_body :: "(bytes \<Rightarrow> bytes) \<Rightarrow> bytes \<Rightarrow> int \<Rightarrow> int \<Rightarrow> nat list \<times> bytes" where
  "pdf_body zlib_compress rgb w h =
     fold write_object (enumerate 1 (pdf_objects zlib_compress rgb w h)) ([], pdf_header)"

declare str_nat.simps [simp del]

section \<open>The loop body on whole chunks\<close>








section \<open>Example files\<close>

text \<open>
  Four files, byte for byte. The first has a header chunk of 12 bytes (the interlace byte
  is missing), then a data chunk and the end chunk.
\<close>

definition short_header_png :: bytes where
  "short_header_png =
     [137, 80, 78, 71, 13, 10, 26, 10,
      0, 0, 0, 12, 73, 72, 68, 82, 0, 0, 0, 1, 0, 0, 0, 1, 8, 2, 0, 0, 199, 36, 63, 41,
      0, 0, 0, 12, 73, 68, 65, 84, 120, 156, 99, 96, 100, 98, 6, 0, 0, 14, 0, 7, 215, 111, 228, 120,
      0, 0, 0, 0, 73, 69, 78, 68, 174, 66, 96, 130]"

text \<open>
  A 1x1 Truecolor header that declares compression method 1, then the end chunk: no data
  chunk.
\<close>

definition compression_png :: bytes where
  "compression_png =
     [137, 80, 78, 71, 13, 10, 26, 10,
      0, 0, 0, 13, 73, 72, 68, 82, 0, 0, 0, 1, 0, 0, 0, 1, 8, 2, 1, 0, 0, 145, 181, 57, 233,
      0, 0, 0, 0, 73, 69, 78, 68, 174, 66, 96, 130]"


text \<open>
  A 2x1 Truecolor image whose data chunk is the zlib stream of the four bytes 0, 1, 2, 3: a
  filter byte and one pixel, where the header announces two pixels. \<open>inflate_short_row\<close>
  is \<^verbatim>\<open>zlib.decompress\<close> on this one stream.
\<close>

definition short_row_png :: bytes where
  "short_row_png =
     [137, 80, 78, 71, 13, 10, 26, 10,
      0, 0, 0, 13, 73, 72, 68, 82, 0, 0, 0, 2, 0, 0, 0, 1, 8, 2, 0, 0, 0, 123, 64, 232, 221,
      0, 0, 0, 12, 73, 68, 65, 84, 120, 156, 99, 96, 100, 98, 6, 0, 0, 14, 0, 7, 215, 111, 228, 120,
      0, 0, 0, 0, 73, 69, 78, 68, 174, 66, 96, 130]"

definition inflate_short_row :: "bytes \<Rightarrow> bytes option" where
  "inflate_short_row d =
     (if d = [120, 156, 99, 96, 100, 98, 6, 0, 0, 14, 0, 7] then Some [0, 1, 2, 3] else None)"





section \<open>The rows after the filters are reversed\<close>

text \<open>
  The rows that \<^verbatim>\<open>to_rgb\<close> composites: for each of \<open>n\<close> rows the filter byte at
  \<open>offset\<close>, then \<open>row_bytes\<close> bytes handed to \<^verbatim>\<open>apply_filter\<close> with the row before.
\<close>

fun recon_rows :: "bytes \<Rightarrow> nat \<Rightarrow> nat \<Rightarrow> nat \<Rightarrow> bytes \<Rightarrow> nat \<Rightarrow> error + bytes list" where
  "recon_rows d row_bytes channels 0 prev_row offset = Inr []"
| "recon_rows d row_bytes channels (Suc n) prev_row offset =
     and_then (get_item d offset) (\<lambda>filter_type.
     and_then (apply_filter (unat filter_type)
                 (slice d (offset + 1) (offset + 1 + row_bytes)) prev_row channels) (\<lambda>row.
     and_then (recon_rows d row_bytes channels n row (offset + 1 + row_bytes)) (\<lambda>rows.
       Inr (row # rows))))"

text \<open>An image of one column and two rows of TruecolorAlpha pixels, and its data.\<close>

definition rgba_image :: PngImage where
  "rgba_image = init_image\<lparr>width := 1, height := 2, bit_depth := 8, color_type := 6\<rparr>"

definition rgba_data :: bytes where
  "rgba_data = [0, 200, 100, 50, 128, 2, 0, 0, 0, 127]"

section \<open>Properties of the predictor and of the blend\<close>

lemma blend_bounds:
  assumes "0 \<le> c" "c \<le> 255" "0 \<le> a" "a \<le> 255"
  shows "0 \<le> blend c a \<and> blend c a \<le> 255"
proof -
  have "c * a \<le> 255 * a"
    using assms by (simp add: mult_right_mono)
  then have up: "c * a + 255 * (255 - a) + 127 \<le> 255 * 255 + 127"
    by (simp add: algebra_simps)
  have "0 \<le> c * a" and "0 \<le> 255 * (255 - a)"
    using assms by simp_all
  then have lo: "0 \<le> c * a + 255 * (255 - a) + 127"
    by linarith
  have "blend c a \<le> (255 * 255 + 127) div 255"
    unfolding blend_def using up by (rule zdiv_mono1) simp
  moreover have "0 \<le> blend c a"
    unfolding blend_def using lo by (simp add: pos_imp_zdiv_nonneg_iff)
  ultimately show ?thesis by simp
qed

lemma blend_uint_bounds: "0 \<le> blend (uint (c::byte)) (uint (a::byte)) \<and> blend (uint c) (uint a) \<le> 255"
proof -
  have "uint c < 256" "uint a < 256"
    using uint_bounded [of c] uint_bounded [of a] by simp_all
  then show ?thesis
    by (intro blend_bounds) simp_all
qed

lemma set_byte_ok:
  "0 \<le> v \<Longrightarrow> v \<le> 255 \<Longrightarrow> i < length xs \<Longrightarrow> set_byte xs i v = Inr (xs[i := word_of_int v])"
  by (simp add: set_byte_def)

lemma set_byte_blend:
  "i < length xs \<Longrightarrow>
     set_byte xs i (blend (uint (c::byte)) (uint (a::byte))) = Inr (xs[i := word_of_int (blend (uint c) (uint a))])"
  using blend_uint_bounds [of c a] by (simp add: set_byte_def)

lemma write_pixel_blend:
  assumes "out_offset + 3 \<le> length result" "a \<noteq> 255" "a \<noteq> 0"
  shows "write_pixel result out_offset r g b a =
           Inr (result[out_offset := word_of_int (blend (uint r) (uint a)),
                       out_offset + 1 := word_of_int (blend (uint g) (uint a)),
                       out_offset + 2 := word_of_int (blend (uint b) (uint a))])"
  using assms by (simp add: write_pixel_def and_then_def set_byte_blend)

lemma write_pixel_ok:
  assumes "out_offset + 3 \<le> length result"
  shows "\<exists>res. write_pixel result out_offset r g b a = Inr res \<and> length res = length result"
proof (cases "a = 255 \<or> a = 0")
  case True
  then show ?thesis
    using assms by (auto simp: write_pixel_def set_slice_def)
next
  case False
  then show ?thesis
    using assms write_pixel_blend [of out_offset result a r g b] by simp
qed

lemma alpha_loop:
  "for_loop (enumerate k t)
     (\<lambda>(idx, v) tab. if idx < length tab then set_item tab idx v else Inr tab) tab
     = Inr (take k tab @ take (length tab - k) t @ drop (k + length t) tab)" if "k \<le> length tab"
  using that
proof (induction t arbitrary: k tab)
  case Nil
  then show ?case by simp
next
  case (Cons v t)
  let ?body = "\<lambda>(idx, v) tab. if idx < length tab then set_item tab idx v else Inr tab"
  show ?case
  proof (cases "k < length tab")
    case True
    then have "for_loop (enumerate k (v # t)) ?body tab
      = for_loop (enumerate (Suc k) t) ?body (tab[k := v])"
      by (simp add: set_item_def)
    also have "\<dots> = Inr (take (Suc k) (tab[k := v]) @ take (length tab - Suc k) t
                          @ drop (Suc k + length t) (tab[k := v]))"
      using True Cons.IH [of "Suc k" "tab[k := v]"] by simp
    also have "take (Suc k) (tab[k := v]) @ take (length tab - Suc k) t
                 @ drop (Suc k + length t) (tab[k := v])
               = take k tab @ take (length tab - k) (v # t) @ drop (k + length (v # t)) tab"
      using True by (simp add: take_Suc_conv_app_nth take_Cons')
    finally show ?thesis .
  next
    case False
    with Cons.prems have k: "k = length tab" by simp
    have "for_loop (enumerate j u) ?body tab = Inr tab"
      if "length tab \<le> j" for j and u :: "'a list"
      using that by (induction u arbitrary: j) auto
    then show ?thesis using k by simp
  qed
qed

section \<open>The claims about the predictor, the blend and the alpha table\<close>

text \<open>
  Claim C6. For all integers (so for all byte values) left, up, upLeft, the Paeth
  predictor of the code returns the candidate that the specification describes: the one
  among (left, up, upLeft) with the least distance to \<open>left + up - upLeft\<close>, the first
  of them in this order when several reach it; its distance is the least of the three;
  and \<open>paeth_predictor 10 20 15 = 15\<close>.
\<close>

theorem paeth_predictor_refines_spec:
  "paeth_predictor left up upLeft = paeth_spec left up upLeft
   \<and> paeth_distance left up upLeft (paeth_predictor left up upLeft)
       = min (paeth_distance left up upLeft left)
           (min (paeth_distance left up upLeft up) (paeth_distance left up upLeft upLeft))
   \<and> paeth_predictor 10 20 15 = 15"
  by (auto simp: paeth_predictor_def paeth_spec_def paeth_distance_def Let_def min_def)

text \<open>
  Claim C9. For \<open>0 \<le> c \<le> 255\<close> and \<open>0 < a < 255\<close> the blend value lies in 0..255, so
  storing it in a bytearray never raises ValueError, and the store at an index inside the
  buffer succeeds and writes that value.
\<close>

theorem blend_fits_in_byte:
  assumes "0 \<le> c" "c \<le> 255" "0 < a" "a < 255"
  shows "0 \<le> blend c a \<and> blend c a \<le> 255
         \<and> set_byte xs i (blend c a) \<noteq> Inl ValueError
         \<and> (i < length xs \<longrightarrow> set_byte xs i (blend c a) = Inr (xs[i := word_of_int (blend c a)]))"
proof -
  have "0 \<le> blend c a \<and> blend c a \<le> 255"
    using assms by (intro blend_bounds) simp_all
  then show ?thesis
    by (simp add: set_byte_def)
qed

theorem blend_fits_in_byte_witness:
  "0 \<le> blend 200 128 \<and> blend 200 128 \<le> 255
   \<and> set_byte [0, 0, 0] 1 (blend 200 128) = Inr [0, 227, 0]"
  using blend_fits_in_byte [of 200 128 "[0, 0, 0]" 1]
  by (simp add: blend_def)

text \<open>
  Claim C10. In the indexed mode, building the alpha table never raises: whatever the
  lengths of the palette and of the transparency payload, no store is out of bounds (the
  store of the model raises IndexError there) and the loop returns a table. The table has
  exactly as many entries as the palette: it is the transparency payload cut at the
  palette size, followed by 255 for the indices that the payload does not cover.
\<close>

theorem alpha_table_ignores_excess:
  "build_alpha_table pal None = Inr (replicate (length pal) 255)
   \<and> build_alpha_table pal (Some t)
       = Inr (take (length pal) t @ replicate (length pal - length t) 255)
   \<and> (\<exists>alpha_table. build_alpha_table pal tr = Inr alpha_table
          \<and> length alpha_table = length pal)"
proof -
  have eq: "build_alpha_table pal (Some u)
      = Inr (take (length pal) u @ replicate (length pal - length u) 255)" for u
    using alpha_loop [of 0 "replicate (length pal) (255::byte)" u]
    by (cases "u = []") (simp_all add: build_alpha_table_def)
  have none: "build_alpha_table pal None = Inr (replicate (length pal) 255)"
    by (simp add: build_alpha_table_def)
  have "\<exists>alpha_table. build_alpha_table pal tr = Inr alpha_table
          \<and> length alpha_table = length pal"
    by (cases tr) (simp_all add: eq none)
  then show ?thesis
    using eq none by simp
qed

section \<open>The TruecolorAlpha branch\<close>

lemma for_loop_append:
  "for_loop (xs @ ys) f s = (case for_loop xs f s of Inl e \<Rightarrow> Inl e | Inr s' \<Rightarrow> for_loop ys f s')"
  by (induction xs arbitrary: s) (auto split: sum.splits)

lemma update3_as_slice:
  assumes "i + 3 \<le> length xs"
  shows "xs[i := x, i + 1 := y, i + 2 := z] = take i xs @ [x, y, z] @ drop (i + 3) xs"
proof (rule nth_equalityI)
  show "length (xs[i := x, i + 1 := y, i + 2 := z]) = length (take i xs @ [x, y, z] @ drop (i + 3) xs)"
    using assms by simp
next
  fix k assume "k < length (xs[i := x, i + 1 := y, i + 2 := z])"
  then have k: "k < length xs" by simp
  consider "k < i" | "k = i" | "k = i + 1" | "k = i + 2" | "i + 3 \<le> k" by linarith
  then show "xs[i := x, i + 1 := y, i + 2 := z] ! k = (take i xs @ [x, y, z] @ drop (i + 3) xs) ! k"
  proof cases
    case 1 then show ?thesis using k assms by (simp add: nth_append)
  next
    case 2 then show ?thesis using k assms by (simp add: nth_append)
  next
    case 3 then show ?thesis using k assms by (simp add: nth_append)
  next
    case 4 then show ?thesis using k assms by (simp add: nth_append)
  next
    case 5
    then have "(take i xs @ [x, y, z] @ drop (i + 3) xs) ! k = drop (i + 3) xs ! (k - i - 3)"
      using assms by (simp add: nth_append nth_Cons')
    also have "\<dots> = xs ! k" using 5 k by simp
    finally show ?thesis using 5 k by simp
  qed
qed

lemma write_pixel_over_white:
  assumes "out_offset + 3 \<le> length result"
  shows "write_pixel result out_offset r g b a =
           Inr (set_slice result out_offset (out_offset + 3) (over_white r g b a))"
proof (cases "a = 255 \<or> a = 0")
  case True
  then show ?thesis by (auto simp: write_pixel_def over_white_def)
next
  case False
  then show ?thesis
    using assms write_pixel_blend [of out_offset result a r g b]
      update3_as_slice [OF assms, of "word_of_int (blend (uint r) (uint a))"
        "word_of_int (blend (uint g) (uint a))" "word_of_int (blend (uint b) (uint a))"]
    by (simp add: over_white_def set_slice_def blend_def)
qed

lemma slice4:
  assumes "4 * px + 4 \<le> length row"
  shows "slice row (px * 4) (px * 4 + 4) = [row ! (4 * px), row ! (4 * px + 1), row ! (4 * px + 2), row ! (4 * px + 3)]"
proof -
  let ?n = "4 * px"
  have "drop ?n row = row ! ?n # drop (Suc ?n) row"
    using assms by (intro Cons_nth_drop_Suc [symmetric]) simp
  also have "drop (Suc ?n) row = row ! (Suc ?n) # drop (Suc (Suc ?n)) row"
    using assms by (intro Cons_nth_drop_Suc [symmetric]) simp
  also have "drop (Suc (Suc ?n)) row = row ! (Suc (Suc ?n)) # drop (Suc (Suc (Suc ?n))) row"
    using assms by (intro Cons_nth_drop_Suc [symmetric]) simp
  also have "drop (Suc (Suc (Suc ?n))) row = row ! (Suc (Suc (Suc ?n))) # drop (Suc (Suc (Suc (Suc ?n)))) row"
    using assms by (intro Cons_nth_drop_Suc [symmetric]) simp
  finally have "take 4 (drop ?n row) = [row ! ?n, row ! (Suc ?n), row ! (Suc (Suc ?n)), row ! (Suc (Suc (Suc ?n)))]"
    by (simp add: numeral_eq_Suc)
  then show ?thesis by (simp add: slice_def mult.commute numeral_eq_Suc)
qed

lemma length_over_white: "length (over_white r g b a) = 3"
  by (simp add: over_white_def)

lemma length_concat_pixel4: "length (concat (map (pixel4 row) [0..<n])) = 3 * n"
  by (induction n) (simp_all add: pixel4_def length_over_white)

lemma composite_alpha_row_eq:
  assumes "4 * w \<le> length row_data" "out_offset + 3 * w \<le> length result"
  shows "composite_alpha_row w row_data (result, out_offset) =
           Inr (take out_offset result @ concat (map (pixel4 row_data) [0..<w])
                  @ drop (out_offset + 3 * w) result,
                out_offset + 3 * w)"
  using assms
proof (induction w)
  case 0
  then show ?case by (simp add: composite_alpha_row_def)
next
  case (Suc w)
  let ?P = "concat (map (pixel4 row_data) [0..<w])"
  let ?mid = "take out_offset result @ ?P @ drop (out_offset + 3 * w) result"
  have ih: "for_loop [0..<w]
       (\<lambda>px (result, out_offset).
          case slice row_data (px * 4) (px * 4 + 4) of
            [r, g, b, a] \<Rightarrow>
              and_then (write_pixel result out_offset r g b a) (\<lambda>result.
                Inr (result, out_offset + 3))
          | _ \<Rightarrow> Inl ValueError) (result, out_offset) = Inr (?mid, out_offset + 3 * w)"
    using Suc by (simp add: composite_alpha_row_def)
  have len: "length ?mid = length result"
    using Suc.prems by (simp add: length_concat_pixel4)
  have wp: "write_pixel ?mid (out_offset + 3 * w) r g b a
        = Inr (set_slice ?mid (out_offset + 3 * w) (out_offset + 3 * w + 3) (over_white r g b a))" for r g b a
    using Suc.prems len by (intro write_pixel_over_white) simp
  have ss: "set_slice ?mid (out_offset + 3 * w) (out_offset + 3 * w + 3) px
        = take out_offset result @ (?P @ px) @ drop (out_offset + 3 * Suc w) result" for px
    using Suc.prems by (simp add: set_slice_def length_concat_pixel4 add.commute add.left_commute)
  have sl: "slice row_data (w * 4) (w * 4 + 4) = [row_data ! (4 * w), row_data ! (4 * w + 1), row_data ! (4 * w + 2), row_data ! (4 * w + 3)]"
    using Suc.prems by (intro slice4) simp
  have px: "[row_data ! (4 * w), row_data ! (4 * w + 1), row_data ! (4 * w + 2), row_data ! (4 * w + 3)]
      = [r, g, b, a] \<Longrightarrow> over_white r g b a = pixel4 row_data w" for r g b a
    by (simp add: pixel4_def)
  have cc: "concat (map (pixel4 row_data) [0..<Suc w]) = ?P @ pixel4 row_data w"
    by simp
  have wp': "write_pixel ?mid (out_offset + 3 * w) r g b a
        = Inr (take out_offset result @ (?P @ over_white r g b a) @ drop (out_offset + 3 * Suc w) result)" for r g b a
    unfolding wp ss ..
  have "composite_alpha_row (Suc w) row_data (result, out_offset)
      = Inr (take out_offset result @ (?P @ pixel4 row_data w) @ drop (out_offset + 3 * Suc w) result,
       out_offset + 3 * w + 3)"
    unfolding composite_alpha_row_def upt_Suc_append [OF le0] for_loop_append ih
    by (simp add: sl wp' and_then_def pixel4_def)
  then show ?case
    unfolding cc by simp
qed

lemma and_then_Inr: "and_then r f = Inr y \<longleftrightarrow> (\<exists>x. r = Inr x \<and> f x = Inr y)"
  by (cases r) (simp_all add: and_then_def)

lemma for_loop_preserves:
  assumes "\<And>i s s'. f i s = Inr s' \<Longrightarrow> P s \<Longrightarrow> P s'"
    and "for_loop xs f s = Inr s'" and "P s"
  shows "P s'"
  using assms(2,3)
proof (induction xs arbitrary: s)
  case Nil
  then show ?case by simp
next
  case (Cons i xs)
  then obtain s1 where "f i s = Inr s1" "for_loop xs f s1 = Inr s'"
    by (auto split: sum.splits)
  then show ?case
    using Cons.IH [of s1] assms(1) [of i s s1] Cons.prems(2) by blast
qed

lemma length_add_byte: "length (add_byte row i v) = length row"
  by (simp add: add_byte_def)

lemma apply_filter_length:
  assumes "apply_filter filter_type row prev_row channels = Inr row'"
  shows "length row' = length row"
proof -
  have p: "for_loop xs f row = Inr row' \<Longrightarrow>
      (\<And>i s s'. f i s = Inr s' \<Longrightarrow> length s' = length s) \<Longrightarrow> length row' = length row"
    for xs :: "nat list" and f
    using for_loop_preserves [of f "\<lambda>s. length s = length row" xs row row'] by simp
  consider "filter_type = 0" | "filter_type = 1" | "filter_type = 2" | "filter_type = 3"
    | "filter_type = 4" | "4 < filter_type"
    by linarith
  then show ?thesis
  proof cases
    case 1
    then show ?thesis using assms by (simp add: apply_filter_def)
  next
    case 2
    then show ?thesis
      using assms by (auto simp: apply_filter_def length_add_byte intro!: p)
  next
    case 3
    then show ?thesis
      using assms
      by (auto simp: apply_filter_def length_add_byte and_then_Inr intro!: p)
  next
    case 4
    then show ?thesis
      using assms
      by (auto simp: apply_filter_def length_add_byte and_then_Inr Let_def intro!: p)
  next
    case 5
    then show ?thesis
      using assms
      by (auto simp: apply_filter_def length_add_byte and_then_Inr Let_def intro!: p)
  next
    case 6
    then show ?thesis using assms by (simp add: apply_filter_def)
  qed
qed

lemma recon_rows_lengths:
  assumes "recon_rows d row_bytes channels n prev_row offset = Inr rows"
    and "offset + n * (1 + row_bytes) \<le> length d"
  shows "length rows = n \<and> (\<forall>row\<in>set rows. length row = row_bytes)"
  using assms
proof (induction n arbitrary: prev_row offset rows)
  case 0
  then show ?case by simp
next
  case (Suc n)
  from Suc.prems(1) obtain ft row rows' where
    ft: "get_item d offset = Inr ft"
    and row: "apply_filter (unat ft) (slice d (offset + 1) (offset + 1 + row_bytes)) prev_row channels
              = Inr row"
    and rest: "recon_rows d row_bytes channels n row (offset + 1 + row_bytes) = Inr rows'"
    and rows: "rows = row # rows'"
    by (auto simp: and_then_Inr)
  have "length (slice d (offset + 1) (offset + 1 + row_bytes)) = row_bytes"
    using Suc.prems(2) by (simp add: slice_def)
  then have len: "length row = row_bytes"
    using apply_filter_length [OF row] by simp
  have "offset + 1 + row_bytes + n * (1 + row_bytes) \<le> length d"
    using Suc.prems(2) by simp
  from Suc.IH [OF rest this] show ?case
    using len rows by simp
qed


lemma splice_extend:
  assumes "length P = k" "oo + k + m \<le> length result"
  shows "take (oo + k) (take oo result @ P @ drop (oo + k) result)
           @ X @ drop (oo + k + m) (take oo result @ P @ drop (oo + k) result)
         = take oo result @ (P @ X) @ drop (oo + (k + m)) result"
  using assms by (simp add: min_def ac_simps)

lemma alpha_rows_loop:
  assumes ct: "channels_of img = 4"
  shows "recon_rows d (width img * 4) 4 (length ixs) prev off = Inr rows \<Longrightarrow>
         (\<forall>row\<in>set rows. length row = 4 * width img) \<Longrightarrow>
         oo + 3 * width img * length ixs \<le> length result \<Longrightarrow>
         \<exists>p o'. for_loop ixs (decode_row img d None) (result, prev, off, oo) =
           Inr (take oo result
                  @ concat (map (\<lambda>row. concat (map (pixel4 row) [0..<width img])) rows)
                  @ drop (oo + 3 * width img * length ixs) result,
                p, o', oo + 3 * width img * length ixs)"
proof (induction ixs arbitrary: result prev off oo rows)
  case Nil
  then show ?case by simp
next
  case (Cons i ixs)
  let ?w = "width img"
  let ?P = "\<lambda>row. concat (map (pixel4 row) [0..<?w])"
  from Cons.prems(1) obtain ft row rows' where
    ft: "get_item d off = Inr ft"
    and row: "apply_filter (unat ft) (slice d (off + 1) (off + 1 + ?w * 4)) prev 4 = Inr row"
    and rest: "recon_rows d (?w * 4) 4 (length ixs) row (off + 1 + ?w * 4) = Inr rows'"
    and rows: "rows = row # rows'"
    by (auto simp: and_then_Inr)
  have len: "4 * ?w \<le> length row" and lens: "\<forall>r\<in>set rows'. length r = 4 * ?w"
    using Cons.prems(2) rows by simp_all
  have room: "oo + 3 * ?w \<le> length result"
    and room': "oo + 3 * ?w + 3 * ?w * length ixs \<le> length result"
    using Cons.prems(3) by (simp_all add: algebra_simps)
  let ?mid = "take oo result @ ?P row @ drop (oo + 3 * ?w) result"
  have car: "composite_alpha_row ?w row (result, oo) = Inr (?mid, oo + 3 * ?w)"
    by (rule composite_alpha_row_eq [OF len room])
  have step: "decode_row img d None i (result, prev, off, oo)
              = Inr (?mid, row, off + 1 + ?w * 4, oo + 3 * ?w)"
    unfolding decode_row_def using ft row car by (simp add: ct Let_def and_then_def)
  have lmid: "length ?mid = length result"
    using room by (simp add: length_concat_pixel4)
  have room2: "oo + 3 * ?w + 3 * ?w * length ixs \<le> length ?mid"
    using room' lmid by simp
  from Cons.IH [OF rest lens room2] obtain p o' where
    ih: "for_loop ixs (decode_row img d None) (?mid, row, off + 1 + ?w * 4, oo + 3 * ?w) =
           Inr (take (oo + 3 * ?w) ?mid @ concat (map ?P rows')
                  @ drop (oo + 3 * ?w + 3 * ?w * length ixs) ?mid,
                p, o', oo + 3 * ?w + 3 * ?w * length ixs)"
    by blast
  have sp: "take (oo + 3 * ?w) ?mid @ concat (map ?P rows')
              @ drop (oo + 3 * ?w + 3 * ?w * length ixs) ?mid
            = take oo result @ (?P row @ concat (map ?P rows'))
              @ drop (oo + (3 * ?w + 3 * ?w * length ixs)) result"
    by (rule splice_extend [OF length_concat_pixel4 room'])
  have idx: "oo + 3 * ?w * length (i # ixs) = oo + (3 * ?w + 3 * ?w * length ixs)"
    by simp
  show ?case
    unfolding idx
    using step ih sp rows by (simp add: and_then_def add.assoc)
qed


lemma to_rgb_from_alpha:
  assumes ct: "color_type img = 6"
    and rec: "recon_rows d (width img * 4) 4 (height img) (replicate (width img * 4) 0) 0 = Inr rows"
    and len: "height img * (1 + width img * 4) \<le> length d"
  shows "to_rgb_from img d =
           Inr (concat (map (\<lambda>row. concat (map (pixel4 row) [0..<width img])) rows))"
    and "length rows = height img" and "\<forall>row\<in>set rows. length row = 4 * width img"
proof -
  have ch: "channels_of img = 4"
    using ct by (simp add: channels_of_def)
  have l: "length rows = height img \<and> (\<forall>row\<in>set rows. length row = width img * 4)"
    using recon_rows_lengths [OF rec] len by simp
  then show "length rows = height img" and lens: "\<forall>row\<in>set rows. length row = 4 * width img"
    by (simp_all add: mult.commute)
  let ?res = "replicate (width img * height img * 3) (0 :: byte)"
  have rec': "recon_rows d (width img * 4) 4 (length [0..<height img])
                (replicate (width img * 4) 0) 0 = Inr rows"
    using rec by simp
  have room: "0 + 3 * width img * length [0..<height img] \<le> length ?res"
    by simp
  from alpha_rows_loop [OF ch rec' lens room] obtain p o' where
    loop: "for_loop [0..<height img] (decode_row img d None)
             (?res, replicate (width img * 4) 0, 0, 0) =
           Inr (concat (map (\<lambda>row. concat (map (pixel4 row) [0..<width img])) rows), p, o',
                3 * width img * height img)"
    by (auto simp: mult.commute mult.left_commute)
  have "composite_rows img d =
          Inr (concat (map (\<lambda>row. concat (map (pixel4 row) [0..<width img])) rows))"
    unfolding composite_rows_def using loop by (simp add: ch Let_def and_then_def)
  then show "to_rgb_from img d =
           Inr (concat (map (\<lambda>row. concat (map (pixel4 row) [0..<width img])) rows))"
    by (simp add: to_rgb_from_def ch and_then_def split: option.splits)
qed

lemma over_white_formula:
  assumes "a \<noteq> 255" "a \<noteq> 0"
  shows "map uint (over_white r g b a)
           = [(uint r * uint a + 255 * (255 - uint a) + 127) div 255,
              (uint g * uint a + 255 * (255 - uint a) + 127) div 255,
              (uint b * uint a + 255 * (255 - uint a) + 127) div 255]"
proof -
  have "uint (word_of_int ((uint c * uint a + 255 * (255 - uint a) + 127) div 255) :: byte)
          = (uint c * uint a + 255 * (255 - uint a) + 127) div 255" for c :: byte
    using blend_uint_bounds [of c a] by (simp add: uint_word_of_int blend_def)
  then show ?thesis
    using assms by (simp add: over_white_def)
qed

lemma rgba_rows:
  "recon_rows rgba_data 4 4 2 [0, 0, 0, 0] 0 = Inr [[200, 100, 50, 128], [200, 100, 50, 255]]"
  by code_simp

text \<open>
  Claim C5. For color type 6, when the decompressed data holds \<open>height\<close> rows whose
  filters reverse to \<open>rows\<close>, \<^verbatim>\<open>to_rgb\<close> returns, row by row and pixel by pixel, the
  pixel \<open>(r, g, b, a)\<close> composited over white: \<open>(r, g, b)\<close> when \<open>a = 255\<close>, white when
  \<open>a = 0\<close>, and otherwise each channel \<open>c\<close> becomes
  \<open>(c * a + 255 * (255 - a) + 127) div 255\<close>, a value that the output byte holds without
  wrapping. Channel 200 with alpha 128 gives 227.
\<close>

theorem alpha_pixels_blend_over_white:
  assumes "color_type img = 6"
    and "recon_rows d (width img * 4) 4 (height img) (replicate (width img * 4) 0) 0 = Inr rows"
    and "height img * (1 + width img * 4) \<le> length d"
  shows "to_rgb_from img d =
           Inr (concat (map (\<lambda>row. concat (map (\<lambda>px.
                  over_white (row ! (4 * px)) (row ! (4 * px + 1)) (row ! (4 * px + 2))
                    (row ! (4 * px + 3))) [0..<width img])) rows))
         \<and> length rows = height img
         \<and> (\<forall>row\<in>set rows. length row = 4 * width img)
         \<and> over_white r g b 255 = [r, g, b]
         \<and> over_white r g b 0 = [255, 255, 255]
         \<and> (a \<noteq> 255 \<and> a \<noteq> 0 \<longrightarrow>
              map uint (over_white r g b a)
                = [(uint r * uint a + 255 * (255 - uint a) + 127) div 255,
                   (uint g * uint a + 255 * (255 - uint a) + 127) div 255,
                   (uint b * uint a + 255 * (255 - uint a) + 127) div 255])
         \<and> over_white 200 200 200 128 = [227, 227, 227]"
proof -
  have "pixel4 row = (\<lambda>px. over_white (row ! (4 * px)) (row ! (4 * px + 1)) (row ! (4 * px + 2))
                    (row ! (4 * px + 3)))" for row
    by (rule ext) (simp add: pixel4_def)
  then have "to_rgb_from img d =
           Inr (concat (map (\<lambda>row. concat (map (\<lambda>px.
                  over_white (row ! (4 * px)) (row ! (4 * px + 1)) (row ! (4 * px + 2))
                    (row ! (4 * px + 3))) [0..<width img])) rows))"
    using to_rgb_from_alpha(1) [OF assms] by simp
  moreover have "over_white r g b 255 = [r, g, b]" "over_white r g b 0 = [255, 255, 255]"
    "over_white 200 200 200 128 = [227, 227, 227]"
    by (simp_all add: over_white_def)
  ultimately show ?thesis
    using to_rgb_from_alpha(2,3) [OF assms] over_white_formula [of a r g b] by blast
qed

theorem alpha_pixels_blend_over_white_witness:
  "color_type rgba_image = 6
   \<and> recon_rows rgba_data 4 4 2 [0, 0, 0, 0] 0 = Inr [[200, 100, 50, 128], [200, 100, 50, 255]]
   \<and> to_rgb_from rgba_image rgba_data = Inr [227, 177, 152, 200, 100, 50]
   \<and> map uint (over_white 200 100 50 128) = [227, 177, 152]"
proof -
  have ct: "color_type rgba_image = 6"
    and w: "width rgba_image = 1" "height rgba_image = 2"
    by (simp_all add: rgba_image_def)
  have rep: "replicate 4 (0 :: byte) = [0, 0, 0, 0]"
    by (simp add: numeral_eq_Suc)
  have rec: "recon_rows rgba_data (width rgba_image * 4) 4 (height rgba_image)
               (replicate (width rgba_image * 4) 0) 0
             = Inr [[200, 100, 50, 128], [200, 100, 50, 255]]"
    unfolding w by (simp add: rep rgba_rows)
  have len: "height rgba_image * (1 + width rgba_image * 4) \<le> length rgba_data"
    unfolding w by (simp add: rgba_data_def)
  have px: "[0..<width rgba_image] = [0]"
    unfolding w by simp
  from alpha_pixels_blend_over_white [OF ct rec len, of 200 100 50 128]
  have "to_rgb_from rgba_image rgba_data = Inr [227, 177, 152, 200, 100, 50]"
    and "map uint (over_white 200 100 50 128) = [227, 177, 152]"
    unfolding px by (simp_all add: over_white_def)
  then show ?thesis
    using ct rgba_rows by simp
qed

section \<open>The transparency key of Truecolor images\<close>

lemma key_pass_Suc: "key_pass key (Suc n) buf = key_step key n (key_pass key n buf)"
  by (simp add: key_pass_def key_step_def)

lemma key_pass_0: "key_pass key 0 buf = buf"
  by (simp add: key_pass_def)

lemma pixel3_take3: "pixel3 buf j = take 3 (drop (3 * j) buf)"
  by (simp add: pixel3_def slice_def)

lemma key_step_pixels:
  assumes "key \<noteq> []"
  shows "length xs \<le> length (key_step key n xs)"
    and "3 * j + 3 \<le> length xs \<Longrightarrow>
           pixel3 (key_step key n xs) j = (if j = n \<and> pixel3 xs n = key then [255, 255, 255] else pixel3 xs j)"
    and "3 dvd length xs \<Longrightarrow> length (key_step key n xs) = length xs"
proof -
  have sl: "slice xs (n * 3) (n * 3 + 3) = pixel3 xs n"
    by (simp add: pixel3_def mult.commute)
  show "length xs \<le> length (key_step key n xs)"
    by (auto simp: key_step_def set_slice_def Let_def)
  show "length (key_step key n xs) = length xs" if "3 dvd length xs"
  proof (cases "pixel3 xs n = key")
    case False
    then show ?thesis by (simp add: key_step_def Let_def sl)
  next
    case True
    with assms have "3 * n < length xs"
      by (auto simp: pixel3_take3)
    with that have "3 * n + 3 \<le> length xs"
      by (auto simp: dvd_def)
    then show ?thesis
      by (auto simp: key_step_def set_slice_def sl Let_def)
  qed
  show "pixel3 (key_step key n xs) j = (if j = n \<and> pixel3 xs n = key then [255, 255, 255] else pixel3 xs j)"
    if j: "3 * j + 3 \<le> length xs"
  proof (cases "pixel3 xs n = key")
    case False
    then show ?thesis by (simp add: key_step_def Let_def sl)
  next
    case True
    then have ks: "key_step key n xs = take (3 * n) xs @ [255, 255, 255] @ drop (3 * n + 3) xs"
      by (simp add: key_step_def Let_def sl set_slice_def mult.commute)
    from True assms have n: "3 * n < length xs"
      by (auto simp: pixel3_take3)
    consider "j < n" | "j = n" | "n < j" by linarith
    then show ?thesis
    proof cases
      case 1
      then have "3 * j + 3 \<le> 3 * n" by simp
      then show ?thesis
        using 1 n unfolding ks pixel3_take3 by (simp add: drop_take min_def)
    next
      case 2
      then show ?thesis
        using True n unfolding ks pixel3_take3 by (simp add: min_def)
    next
      case 3
      then have "3 * n + 3 \<le> 3 * j" by simp
      then obtain k where k: "3 * j = 3 * n + 3 + k"
        using le_Suc_ex by blast
      have "drop (3 * j) (take (3 * n) xs @ [255, 255, 255] @ drop (3 * n + 3) xs) = drop (3 * j) xs"
      proof -
        have "length (take (3 * n) xs) = 3 * n" using n by simp
        then have "drop (3 * j) (take (3 * n) xs @ [255, 255, 255] @ drop (3 * n + 3) xs)
            = drop (3 + k) ([255, 255, 255] @ drop (3 * n + 3) xs)"
          unfolding k by (simp add: add.commute add.left_commute)
        also have "\<dots> = drop k (drop (3 * n + 3) xs)"
          by (simp add: numeral_3_eq_3)
        also have "\<dots> = drop (3 * j) xs"
          unfolding k by (simp add: add.commute)
        finally show ?thesis .
      qed
      then show ?thesis
        using 3 unfolding ks pixel3_take3 by simp
    qed
  qed
qed

lemma key_pass_pixels:
  assumes "key \<noteq> []"
  shows "length buf \<le> length (key_pass key n buf)
       \<and> (3 dvd length buf \<longrightarrow> length (key_pass key n buf) = length buf)
       \<and> (\<forall>j. 3 * j + 3 \<le> length buf \<longrightarrow>
             pixel3 (key_pass key n buf) j
               = (if j < n \<and> pixel3 buf j = key then [255, 255, 255] else pixel3 buf j))"
proof (induction n)
  case 0
  then show ?case by (simp add: key_pass_0)
next
  case (Suc n)
  let ?out = "key_pass key n buf"
  have len: "length buf \<le> length ?out" using Suc by simp
  have a: "length buf \<le> length (key_pass key (Suc n) buf)"
    using len key_step_pixels(1) [OF assms, of ?out n] by (simp add: key_pass_Suc)
  have b: "3 dvd length buf \<longrightarrow> length (key_pass key (Suc n) buf) = length buf"
    using Suc key_step_pixels(3) [OF assms, of ?out n] by (simp add: key_pass_Suc)
  have c: "pixel3 (key_pass key (Suc n) buf) j
               = (if j < Suc n \<and> pixel3 buf j = key then [255, 255, 255] else pixel3 buf j)"
    if j: "3 * j + 3 \<le> length buf" for j
  proof -
    have j': "3 * j + 3 \<le> length ?out" using j len by simp
    have ih: "pixel3 ?out j = (if j < n \<and> pixel3 buf j = key then [255, 255, 255] else pixel3 buf j)"
      using Suc j by simp
    have st: "pixel3 (key_pass key (Suc n) buf) j
        = (if j = n \<and> pixel3 ?out n = key then [255, 255, 255] else pixel3 ?out j)"
      using key_step_pixels(2) [OF assms j', of n] by (simp add: key_pass_Suc)
    show ?thesis
    proof (cases "j = n")
      case True
      then show ?thesis using st ih by simp
    next
      case False
      then show ?thesis using st ih by auto
    qed
  qed
  show ?case using a b c by blast
qed


lemma channels_3_iff: "channels_of img = 3 \<longleftrightarrow> color_type img = 2"
  by (simp add: channels_of_def)

text \<open>
  Claim C7. Let \<open>res\<close> be the buffer after all rows are composited. In Truecolor mode
  with a transparency payload \<open>t\<close> that is not empty, the key is its first three bytes
  and the returned buffer has, at every complete pixel of \<open>res\<close>, white where the pixel
  of \<open>res\<close> equals the key and the pixel of \<open>res\<close> elsewhere (and the same length as
  \<open>res\<close> when that is a multiple of 3). In every other mode, and without a payload,
  the returned buffer is \<open>res\<close> itself.
\<close>

theorem key_substitution_truecolor_only:
  assumes "composite_rows img d = Inr res"
  shows "(color_type img = 2 \<and> transparency img = Some t \<and> t \<noteq> [] \<longrightarrow>
            (\<exists>out. to_rgb_from img d = Inr out
               \<and> (3 dvd length res \<longrightarrow> length out = length res)
               \<and> (\<forall>j. 3 * j + 3 \<le> length res \<longrightarrow>
                     pixel3 out j
                       = (if j < width img * height img \<and> pixel3 res j = take 3 t
                          then [255, 255, 255] else pixel3 res j))))
         \<and> (color_type img \<noteq> 2 \<or> transparency img = None \<or> transparency img = Some []
              \<longrightarrow> to_rgb_from img d = Inr res)"
proof (intro conjI impI)
  assume a: "color_type img = 2 \<and> transparency img = Some t \<and> t \<noteq> []"
  then have key: "take 3 t \<noteq> []" by simp
  have "to_rgb_from img d = Inr (key_pass (take 3 t) (width img * height img) res)"
    using a assms by (simp add: to_rgb_from_def and_then_def channels_3_iff)
  then show "\<exists>out. to_rgb_from img d = Inr out
               \<and> (3 dvd length res \<longrightarrow> length out = length res)
               \<and> (\<forall>j. 3 * j + 3 \<le> length res \<longrightarrow>
                     pixel3 out j
                       = (if j < width img * height img \<and> pixel3 res j = take 3 t
                          then [255, 255, 255] else pixel3 res j))"
    using key_pass_pixels [OF key, of res "width img * height img"] by simp
next
  assume "color_type img \<noteq> 2 \<or> transparency img = None \<or> transparency img = Some []"
  then show "to_rgb_from img d = Inr res"
    using assms by (auto simp: to_rgb_from_def and_then_def channels_3_iff split: option.splits)
qed

lemma keyed_rows: "composite_rows keyed_image [0, 1, 2, 3, 4, 5, 6] = Inr [1, 2, 3, 4, 5, 6]"
  by (simp add: composite_rows_def decode_row_def keyed_image_def init_image_def
      channels_of_def and_then_def get_item_def slice_def set_slice_def apply_filter_def)

lemma keyed_out: "to_rgb_from keyed_image [0, 1, 2, 3, 4, 5, 6] = Inr [255, 255, 255, 4, 5, 6]"
proof -
  have f: "transparency keyed_image = Some [1, 2, 3, 0, 0, 0]" "channels_of keyed_image = 3"
    "width keyed_image = 2" "height keyed_image = 1"
    by (simp_all add: keyed_image_def init_image_def channels_of_def)
  show ?thesis
    unfolding to_rgb_from_def keyed_rows f
    by (simp add: and_then_def key_pass_def slice_def set_slice_def upt_rec)
qed

theorem key_substitution_truecolor_only_witness:
  "composite_rows keyed_image [0, 1, 2, 3, 4, 5, 6] = Inr [1, 2, 3, 4, 5, 6]
   \<and> to_rgb_from keyed_image [0, 1, 2, 3, 4, 5, 6] = Inr [255, 255, 255, 4, 5, 6]"
  using key_substitution_truecolor_only [OF keyed_rows, of "[1, 2, 3, 0, 0, 0]"]
  by (simp add: keyed_rows keyed_out)

section \<open>The claims about the container parser\<close>

lemmas load_eval = load_def PNG_SIGNATURE_def init_image_def be_uint_def encode_def
  parse_ihdr_def parse_palette_def slice_def

text \<open>
  Claim C2. A header chunk whose payload has the wrong size should fail with the error
  kind of a malformed chunk. On the file \<open>short_header_png\<close> (a 12-byte header payload)
  \<^verbatim>\<open>load\<close> stops with the \<^verbatim>\<open>struct.error\<close> of \<^verbatim>\<open>struct.unpack\<close>, which is none of the
  program's own exits, and leaves the object untouched; \<^verbatim>\<open>_parse_palette\<close> checks the size
  of its payload, \<^verbatim>\<open>_parse_ihdr\<close> does not.
\<close>

theorem ihdr_wrong_size_is_struct_error:
  "load init_image short_header_png = (Some StructError, init_image)
   \<and> kind_of StructError = Unclassified"
  by (simp add: short_header_png_def load_eval)

text \<open>
  Claim C3, as stated: the checks of the compression and filter methods come after the
  loop and after the check for missing data, so a header with compression method 1 and no
  data chunk fails with the missing-data error. It does not: \<open>compression_png\<close> has no
  data chunk and fails with the exit for unsupported compression parameters.
\<close>

theorem compression_before_missing_data_counterexample:
  "fst (load init_image compression_png) = Some UnsupportedCompressionParams
   \<and> idat_chunks (snd (load init_image compression_png)) = []
   \<and> kind_of UnsupportedCompressionParams = UnsupportedFormatError"
  by (simp add: compression_png_def load_eval)

lemma be_uint_13: "be_uint [0, 0, 0, 13] = 13"
  by (simp add: be_uint_def)

text \<open>
  Claim C3, amended: the compression and filter methods are checked while the header chunk
  is parsed, inside the chunk loop and before any check for missing data. Every input
  whose first chunk is a header of 13 bytes that declares a compression method or a filter
  method other than 0 fails with the unsupported-format exit, whatever follows the header
  (data chunks or none).
\<close>

theorem compression_checked_in_header:
  assumes "length data = 13" "data ! 10 \<noteq> 0 \<or> data ! 11 \<noteq> 0"
  shows "\<exists>img'. load img (PNG_SIGNATURE @ [0, 0, 0, 13] @ encode ''IHDR'' @ data @ rest)
            = (Some UnsupportedCompressionParams, img')
         \<and> kind_of UnsupportedCompressionParams = UnsupportedFormatError"
proof -
  have sig: "length PNG_SIGNATURE = 8" by (simp add: PNG_SIGNATURE_def)
  have ty: "length (encode ''IHDR'') = 4" by (simp add: encode_def)
  have ph: "\<exists>img'. parse_ihdr img data = (Some UnsupportedCompressionParams, img')"
    using assms by (auto simp: parse_ihdr_def Let_def unat_eq_0)
  then obtain img' where img': "parse_ihdr img data = (Some UnsupportedCompressionParams, img')" ..
  have "load_chunks img ([0, 0, 0, 13] @ encode ''IHDR'' @ data @ rest) = (Some UnsupportedCompressionParams, img')"
    apply (subst load_chunks.simps)
    using assms(1) ty img' by (simp add: be_uint_13 Let_def)
  then show ?thesis
    using sig by (simp add: load_def)
qed

theorem compression_checked_in_header_witness:
  "\<exists>img'. load init_image
            (PNG_SIGNATURE @ [0, 0, 0, 13] @ encode ''IHDR''
               @ [0, 0, 0, 1, 0, 0, 0, 1, 8, 2, 1, 0, 0]
               @ [145, 181, 57, 233, 0, 0, 0, 0, 73, 69, 78, 68, 174, 66, 96, 130])
          = (Some UnsupportedCompressionParams, img')"
  using compression_checked_in_header
    [of "[0, 0, 0, 1, 0, 0, 0, 1, 8, 2, 1, 0, 0]" init_image
        "[145, 181, 57, 233, 0, 0, 0, 0, 73, 69, 78, 68, 174, 66, 96, 130]"]
  by simp

text \<open>
  Claim C4. A successful decoding should return \<open>width * height * 3\<close> bytes. On
  \<open>short_row_png\<close> (2x1 Truecolor, data for one pixel only) \<^verbatim>\<open>load\<close> succeeds and
  \<^verbatim>\<open>to_rgb\<close> returns 3 bytes where \<open>width * height * 3 = 6\<close>: the slice assignment of the
  short row shrinks the buffer that was allocated with the right size.
\<close>

theorem short_row_shrinks_buffer:
  "\<exists>img. load init_image short_row_png = (None, img)
      \<and> width img * height img * 3 = 6
      \<and> to_rgb inflate_short_row img = Inr [1, 2, 3]"
  by (simp add: short_row_png_def load_eval to_rgb_def inflate_short_row_def
      to_rgb_from_def composite_rows_def decode_row_def
      channels_of_def and_then_def get_item_def set_slice_def apply_filter_def)

section \<open>The cross-reference table\<close>

lemma fold_append_concat: "fold (\<lambda>x out. out @ f x) xs out = out @ concat (map f xs)"
  by (induction xs arbitrary: out) simp_all

lemma write_objects_positions:
  "(\<exists>qs. fst (fold write_object (enumerate k objs) (ps, out)) = ps @ qs \<and> length qs = length objs)
   \<and> (\<exists>tail. snd (fold write_object (enumerate k objs) (ps, out)) = out @ tail)
   \<and> (\<forall>i<length objs. \<exists>pre post.
         snd (fold write_object (enumerate k objs) (ps, out))
           = pre @ encode (str_nat (k + i) @ '' 0 obj\<newline>'') @ post
         \<and> length pre = fst (fold write_object (enumerate k objs) (ps, out)) ! (length ps + i))"
proof (induction objs arbitrary: k ps out)
  case Nil
  then show ?case by simp
next
  case (Cons body objs)
  let ?out1 = "out @ encode (str_nat k @ '' 0 obj\<newline>'') @ body @ encode ''\<newline>endobj\<newline>''"
  let ?R = "fold write_object (enumerate (Suc k) objs) (ps @ [length out], ?out1)"
  have step: "fold write_object (enumerate k (body # objs)) (ps, out) = ?R"
    by (simp add: write_object_def)
  from Cons.IH [of "Suc k" "ps @ [length out]" ?out1]
  obtain qs tail where qs: "fst ?R = (ps @ [length out]) @ qs" "length qs = length objs"
    and tail: "snd ?R = ?out1 @ tail"
    and rest: "\<forall>i<length objs. \<exists>pre post.
         snd ?R = pre @ encode (str_nat (Suc k + i) @ '' 0 obj\<newline>'') @ post
         \<and> length pre = fst ?R ! (length (ps @ [length out]) + i)"
    by blast
  have a: "\<exists>qs'. fst ?R = ps @ qs' \<and> length qs' = length (body # objs)"
    using qs by simp
  have b: "\<exists>tail'. snd ?R = out @ tail'"
    using tail by simp
  have c: "\<exists>pre post. snd ?R = pre @ encode (str_nat (k + i) @ '' 0 obj\<newline>'') @ post
         \<and> length pre = fst ?R ! (length ps + i)" if "i < length (body # objs)" for i
  proof (cases i)
    case 0
    have "snd ?R = out @ encode (str_nat (k + 0) @ '' 0 obj\<newline>'') @ (body @ encode ''\<newline>endobj\<newline>'' @ tail)"
      using tail by simp
    moreover have "length out = fst ?R ! (length ps + 0)"
      using qs by (simp add: nth_append)
    ultimately show ?thesis unfolding 0 by blast
  next
    case (Suc j)
    then have "j < length objs" using that by simp
    with rest obtain pre post where
      "snd ?R = pre @ encode (str_nat (Suc k + j) @ '' 0 obj\<newline>'') @ post"
      "length pre = fst ?R ! (length (ps @ [length out]) + j)"
      by blast
    then show ?thesis unfolding Suc by auto
  qed
  show ?case unfolding step using a b c by blast
qed

lemma length_pdf_objects: "length (pdf_objects zc rgb w h) = 5"
  by (simp add: pdf_objects_def Let_def)

lemma str_nat_6: "str_nat 6 = ''6''"
  by code_simp

lemma make_pdf_eq:
  "make_pdf zc rgb w h =
     snd (pdf_body zc rgb w h) @ encode ''xref\<newline>0 6\<newline>'' @ encode ''0000000000 65535 f \<newline>''
       @ concat (map (\<lambda>pos. encode (pad10 pos @ '' 00000 n \<newline>'')) (fst (pdf_body zc rgb w h)))
       @ encode ''trailer\<newline>''
       @ encode (''<< /Size 6 /Root 1 0 R >>\<newline>startxref\<newline>''
                 @ str_nat (length (snd (pdf_body zc rgb w h))) @ ''\<newline>%%EOF'')"
  by (simp add: make_pdf_def pdf_body_def Let_def split_beta fold_append_concat
      length_pdf_objects str_nat_6)

lemma dec_value_snoc: "dec_value (s @ [c]) = 10 * dec_value s + (of_char c - 48)"
  by (simp add: dec_value_def)

lemma digit_value: "d < 10 \<Longrightarrow> of_char (digit_char d) - 48 = d"
  by (simp add: digit_char_def)

lemma dec_value_str_nat: "dec_value (str_nat n) = n"
proof (induction n rule: str_nat.induct)
  case (1 n)
  show ?case
  proof (cases "n < 10")
    case True
    then show ?thesis
      using dec_value_snoc [of "[]" "digit_char n"]
      by (simp add: str_nat.simps [of n] digit_value dec_value_def)
  next
    case False
    then have "dec_value (str_nat n) = 10 * (n div 10) + n mod 10"
      using 1 by (simp add: str_nat.simps [of n] dec_value_snoc digit_value)
    then show ?thesis by simp
  qed
qed

lemma dec_value_zeros: "dec_value (replicate k CHR ''0'' @ s) = dec_value s"
proof -
  have "foldl (\<lambda>acc c. 10 * acc + (of_char c - 48)) (0::nat) (replicate k CHR ''0'') = 0"
    by (induction k) simp_all
  then show ?thesis by (simp add: dec_value_def)
qed

lemma dec_value_pad10: "dec_value (pad10 n) = n"
  by (simp add: pad10_def dec_value_zeros dec_value_str_nat)

lemma first_position:
  "fst (fold write_object (enumerate k (body # objs)) ([], out)) ! 0 = length out"
proof -
  let ?out1 = "out @ encode (str_nat k @ '' 0 obj\<newline>'') @ body @ encode ''\<newline>endobj\<newline>''"
  have "fold write_object (enumerate k (body # objs)) ([], out)
      = fold write_object (enumerate (Suc k) objs) ([] @ [length out], ?out1)"
    by (simp add: write_object_def)
  moreover obtain qs where
    "fst (fold write_object (enumerate (Suc k) objs) ([] @ [length out], ?out1)) = ([] @ [length out]) @ qs"
    using write_objects_positions [of "Suc k" objs "[] @ [length out]" ?out1] by blast
  ultimately show ?thesis by simp
qed

lemma first_offset: "fst (pdf_body zc rgb w h) ! 0 = 15"
proof -
  have len: "length pdf_header = 15"
    by (simp add: pdf_header_def encode_def)
  obtain body objs where objs: "pdf_objects zc rgb w h = body # objs"
    by (simp add: pdf_objects_def Let_def)
  show ?thesis
    unfolding pdf_body_def objs first_position len ..
qed

lemma str_nat_1: "str_nat (Suc 0) = ''1''"
  by code_simp

text \<open>
  Claim C1. In every document that \<^verbatim>\<open>make_pdf\<close> builds, the output is the objects
  followed by the cross-reference section, whose five entries are the recorded offsets
  in object order, ten digits each at least, and whose \<open>startxref\<close> value is the length of
  what precedes the word \<open>xref\<close>; both read back as the numbers they stand for. For
  \<open>n\<close> from 1 to 5 the marker "n 0 obj" stands in the output exactly at the offset
  recorded for object \<open>n\<close>.
\<close>

theorem xref_offsets_are_marker_positions:
  "let xref_positions = fst (pdf_body zc rgb w h);
       body = snd (pdf_body zc rgb w h);
       out = make_pdf zc rgb w h
   in length xref_positions = 5
      \<and> out = body @ encode ''xref\<newline>0 6\<newline>'' @ encode ''0000000000 65535 f \<newline>''
                @ concat (map (\<lambda>pos. encode (pad10 pos @ '' 00000 n \<newline>'')) xref_positions)
                @ encode ''trailer\<newline>''
                @ encode (''<< /Size 6 /Root 1 0 R >>\<newline>startxref\<newline>''
                          @ str_nat (length body) @ ''\<newline>%%EOF'')
      \<and> dec_value (str_nat (length body)) = length body
      \<and> (\<forall>n\<in>{1..5}.
            dec_value (pad10 (xref_positions ! (n - 1))) = xref_positions ! (n - 1)
            \<and> (\<exists>pre post. out = pre @ encode (str_nat n @ '' 0 obj'') @ post
                  \<and> length pre = xref_positions ! (n - 1)))"
proof -
  let ?objs = "pdf_objects zc rgb w h"
  let ?R = "pdf_body zc rgb w h"
  let ?out = "make_pdf zc rgb w h"
  note wp = write_objects_positions [of 1 ?objs "[]" pdf_header, folded pdf_body_def]
  have len: "length (fst ?R) = 5"
    using wp by (auto simp: length_pdf_objects)
  have marker: "\<exists>pre post. ?out = pre @ encode (str_nat n @ '' 0 obj'') @ post
                  \<and> length pre = fst ?R ! (n - 1)" if "n \<in> {1..5}" for n
  proof -
    from that have "1 \<le> n" "n \<le> 5" by simp_all
    then have "n - 1 < length ?objs" unfolding length_pdf_objects by linarith
    with wp obtain pre post where
      p: "snd ?R = pre @ encode (str_nat (1 + (n - 1)) @ '' 0 obj\<newline>'') @ post"
         "length pre = fst ?R ! (length ([]::nat list) + (n - 1))"
      by blast
    from that have n: "1 + (n - 1) = n" by simp
    obtain tl where tl: "?out = snd ?R @ tl"
      using make_pdf_eq [of zc rgb w h] by blast
    have "?out = pre @ encode (str_nat n @ '' 0 obj'') @ (encode ''\<newline>'' @ post @ tl)"
      unfolding tl p(1) n by (simp add: encode_def)
    then show ?thesis using p(2) by auto
  qed
  show ?thesis
    unfolding Let_def
    using len make_pdf_eq [of zc rgb w h] marker
    by (simp add: dec_value_str_nat dec_value_pad10)
qed

theorem xref_offsets_are_marker_positions_witness:
  "\<exists>pre post. make_pdf (\<lambda>x. x) [1, 2, 3] 1 1 = pre @ encode ''1 0 obj'' @ post \<and> length pre = 15"
proof -
  have "(1::nat) \<in> {1..5}" by simp
  with xref_offsets_are_marker_positions [of "\<lambda>x. x" "[1, 2, 3]" 1 1]
  have "\<exists>pre post. make_pdf (\<lambda>x. x) [1, 2, 3] 1 1 = pre @ encode (str_nat 1 @ '' 0 obj'') @ post
          \<and> length pre = fst (pdf_body (\<lambda>x. x) [1, 2, 3] 1 1) ! (1 - 1)"
    unfolding Let_def by blast
  then show ?thesis
    by (simp add: first_offset str_nat_1)
qed

section \<open>The state after a failed parse\<close>











end
